theory Spec2Isabelle
  imports Main "HOL-Library.Word"
begin

section \<open>The Brainfuck interpreter of src/bf.c\<close>

text \<open>
  The interpreter keeps two arrays of 30000 \<^verbatim>\<open>char\<close>s, \<^verbatim>\<open>code\<close> and \<^verbatim>\<open>data\<close>, and walks them
  with two raw pointers, \<^verbatim>\<open>ip\<close> and \<^verbatim>\<open>dp\<close>. The arrays are lists here, the pointers are their
  offsets from the start of the array (an \<^typ>\<open>int\<close>: nothing in the program keeps an offset
  from leaving the array), and a read or write through a pointer that is outside its array,
  which C leaves undefined, is the error value \<open>Undefined\<close>. Moving a pointer is plain
  arithmetic on the offset, as on the flat address space the program is compiled for.

  Bytes of the program text are \<^typ>\<open>char\<close>s (8 bits in Isabelle too), cells of the tape are
  8-bit words: the program only compares a code byte with a character constant, and only
  tests a cell against 0, increments, decrements, prints and overwrites it, so the
  signedness of C's \<^verbatim>\<open>char\<close> does not show.
\<close>

type_synonym byte = "8 word"

definition capacity :: nat where
  "capacity = 30000"

text \<open>\<^verbatim>\<open>EOF\<close> of stdio.h, which is \<^verbatim>\<open>(-1)\<close> in the C libraries in use.\<close>

definition EOF :: int where
  "EOF = - 1"

text \<open>The terminator \<^verbatim>\<open>'\0'\<close>.\<close>

definition NUL :: char where
  "NUL = CHR 0x00"

datatype error = Undefined

text \<open>\<^verbatim>\<open>getchar()\<close> on the rest of standard input: the next byte as a non-negative
  \<^verbatim>\<open>int\<close>, or \<^verbatim>\<open>EOF\<close> when nothing is left.\<close>

fun getchar :: "char list \<Rightarrow> int \<times> char list" where
  "getchar [] = (EOF, [])"
| "getchar (c # cs) = (of_char c, cs)"

subsection \<open>Reading through the pointers\<close>

text \<open>\<^verbatim>\<open>*ip\<close>, for \<^verbatim>\<open>ip = code + i\<close>.\<close>

definition fetch :: "char list \<Rightarrow> int \<Rightarrow> char option" where
  "fetch code i = (if 0 \<le> i \<and> i < int (length code) then Some (code ! nat i) else None)"

subsection \<open>flookup and blookup\<close>

text \<open>
  The loop of \<^verbatim>\<open>flookup\<close>, from its first test on: \<open>i\<close> is the offset of \<^verbatim>\<open>ip\<close>, \<open>count\<close> the
  \<^verbatim>\<open>unsigned\<close> counter, 32 bits wide, which wraps around. The test reads \<^verbatim>\<open>*ip\<close> first, so
  a pointer outside the array is an undefined read before anything else happens.
  \<^verbatim>\<open>for (++ip; !(*ip == ']' && count == 0); ++ip) {
      if (*ip == '[') ++count;
      if (*ip == ']') --count; }\<close>
\<close>

function floop :: "char list \<Rightarrow> int \<Rightarrow> 32 word \<Rightarrow> error + int" where
  "floop code i count =
     (case fetch code i of
        None \<Rightarrow> Inl Undefined
      | Some c \<Rightarrow>
          if c = CHR '']'' \<and> count = 0 then Inr i
          else floop code (i + 1)
                 (let count1 = (if c = CHR ''['' then count + 1 else count)
                  in if c = CHR '']'' then count1 - 1 else count1))"
  by pat_completeness auto
termination
  by (relation "measure (\<lambda>(code, i, count). nat (int (length code) - i))")
     (auto simp: fetch_def split: if_splits)

definition flookup :: "char list \<Rightarrow> int \<Rightarrow> error + int" where
  "flookup code i = floop code (i + 1) 0"

text \<open>
  The loop of \<^verbatim>\<open>blookup\<close>:
  \<^verbatim>\<open>for (--ip; !(*ip == '[' && count == 0); --ip) {
      if (*ip == ']') ++count;
      if (*ip == '[') --count; }\<close>
\<close>

function bloop :: "char list \<Rightarrow> int \<Rightarrow> 32 word \<Rightarrow> error + int" where
  "bloop code i count =
     (case fetch code i of
        None \<Rightarrow> Inl Undefined
      | Some c \<Rightarrow>
          if c = CHR ''['' \<and> count = 0 then Inr i
          else bloop code (i - 1)
                 (let count1 = (if c = CHR '']'' then count + 1 else count)
                  in if c = CHR ''['' then count1 - 1 else count1))"
  by pat_completeness auto
termination
  by (relation "measure (\<lambda>(code, i, count). nat (i + 1))")
     (auto simp: fetch_def split: if_splits)

definition blookup :: "char list \<Rightarrow> int \<Rightarrow> error + int" where
  "blookup code i = bloop code (i - 1) 0"

subsection \<open>cread\<close>

text \<open>
  \<^verbatim>\<open>memset(code, 0x00, 30000); while ((current = getchar()) != EOF) *code++ = current;\<close>
  The loop takes the bytes of standard input one by one; \<open>k\<close> is how far \<^verbatim>\<open>code\<close> has moved.
  Nothing stops it at the end of the array: the write after the last cell is undefined.
\<close>

fun cread_loop :: "char list \<Rightarrow> nat \<Rightarrow> char list \<Rightarrow> error + char list" where
  "cread_loop [] k code = Inr code"
| "cread_loop (c # cs) k code =
     (if k < length code then cread_loop cs (Suc k) (code[k := c]) else Inl Undefined)"

definition cread :: "char list \<Rightarrow> error + char list" where
  "cread inp = cread_loop inp 0 (replicate capacity NUL)"

text \<open>What \<^verbatim>\<open>cread\<close> leaves in the array when the input fits: the input, then the zero bytes
  of \<^verbatim>\<open>memset\<close> (see \<open>cread_eq\<close>).\<close>

definition loaded :: "char list \<Rightarrow> char list" where
  "loaded inp = inp @ replicate (capacity - length inp) NUL"

subsection \<open>The interpreter loop\<close>

record state =
  ip :: int
  dp :: int
  data :: "byte list"
  stdin :: "char list"
  stdout :: "byte list"

text \<open>\<^verbatim>\<open>*dp\<close> as a value, and the assignment \<^verbatim>\<open>*dp = v\<close>.\<close>

definition peek :: "state \<Rightarrow> byte option" where
  "peek s = (if 0 \<le> dp s \<and> dp s < int (length (data s)) then Some (data s ! nat (dp s)) else None)"

definition poke :: "state \<Rightarrow> byte \<Rightarrow> state" where
  "poke s v = s\<lparr>data := (data s)[nat (dp s) := v]\<rparr>"

text \<open>The \<^verbatim>\<open>switch\<close> of \<^verbatim>\<open>main\<close>: one dispatch on \<^verbatim>\<open>*ip\<close>.\<close>

definition step :: "char list \<Rightarrow> state \<Rightarrow> error + state" where
  "step code s =
     (case fetch code (ip s) of
        None \<Rightarrow> Inl Undefined
      | Some c \<Rightarrow>
          if c = CHR ''>'' then Inr (s\<lparr>dp := dp s + 1, ip := ip s + 1\<rparr>)
          else if c = CHR ''<'' then Inr (s\<lparr>dp := dp s - 1, ip := ip s + 1\<rparr>)
          else if c = CHR ''+'' then
            (case peek s of
               None \<Rightarrow> Inl Undefined
             | Some v \<Rightarrow> Inr ((poke s (v + 1))\<lparr>ip := ip s + 1\<rparr>))
          else if c = CHR ''-'' then
            (case peek s of
               None \<Rightarrow> Inl Undefined
             | Some v \<Rightarrow> Inr ((poke s (v - 1))\<lparr>ip := ip s + 1\<rparr>))
          else if c = CHR ''.'' then
            (case peek s of
               None \<Rightarrow> Inl Undefined
             | Some v \<Rightarrow> Inr (s\<lparr>stdout := stdout s @ [v], ip := ip s + 1\<rparr>))
          else if c = CHR '','' then
            (case getchar (stdin s) of
               (r, rest) \<Rightarrow>
                 (case peek s of
                    None \<Rightarrow> Inl Undefined
                  | Some _ \<Rightarrow> Inr ((poke s (word_of_int r))\<lparr>stdin := rest, ip := ip s + 1\<rparr>)))
          else if c = CHR ''['' then
            (case peek s of
               None \<Rightarrow> Inl Undefined
             | Some v \<Rightarrow>
                 if v = 0 then
                   (case flookup code (ip s) of
                      Inl e \<Rightarrow> Inl e
                    | Inr j \<Rightarrow> Inr (s\<lparr>ip := j\<rparr>))
                 else Inr (s\<lparr>ip := ip s + 1\<rparr>))
          else if c = CHR '']'' then
            (case peek s of
               None \<Rightarrow> Inl Undefined
             | Some v \<Rightarrow>
                 if v \<noteq> 0 then
                   (case blookup code (ip s) of
                      Inl e \<Rightarrow> Inl e
                    | Inr j \<Rightarrow> Inr (s\<lparr>ip := j\<rparr>))
                 else Inr (s\<lparr>ip := ip s + 1\<rparr>))
          else Inr (s\<lparr>ip := ip s + 1\<rparr>))"

text \<open>
  \<^verbatim>\<open>while (*ip != '\0') switch (*ip) ...\<close> The loop need not end, so it runs on fuel: \<open>None\<close>
  is "not finished after that many dispatches", \<open>Some (Inr s)\<close> the state in which the loop
  was left, \<open>Some (Inl Undefined)\<close> an access outside an array.
\<close>

fun run :: "nat \<Rightarrow> char list \<Rightarrow> state \<Rightarrow> (error + state) option" where
  "run 0 code s = None"
| "run (Suc n) code s =
     (case fetch code (ip s) of
        None \<Rightarrow> Some (Inl Undefined)
      | Some c \<Rightarrow>
          if c = NUL then Some (Inr s)
          else (case step code s of
                  Inl e \<Rightarrow> Some (Inl e)
                | Inr s' \<Rightarrow> run n code s'))"

text \<open>The state before the loop: both pointers at the start of their arrays, the tape
  zeroed by \<^verbatim>\<open>memset\<close>; \<open>inp\<close> is what is left on standard input.\<close>

definition initial :: "char list \<Rightarrow> state" where
  "initial inp = \<lparr>ip = 0, dp = 0, data = replicate capacity 0, stdin = inp, stdout = []\<rparr>"

text \<open>\<^verbatim>\<open>main\<close>: \<^verbatim>\<open>cread\<close> has read standard input to its end, so the loop starts with nothing
  left to read.\<close>

definition main :: "nat \<Rightarrow> char list \<Rightarrow> (error + state) option" where
  "main fuel inp =
     (case cread inp of
        Inl e \<Rightarrow> Some (Inl e)
      | Inr code \<Rightarrow> run fuel code (initial []))"

subsection \<open>Balance of brackets\<close>

text \<open>
  What the specification calls a balanced program (4.1); src/bf.c has no such notion, and
  the claims about balanced programs take it as their hypothesis. A scan keeps a nesting
  counter, increments it on \<^verbatim>\<open>[\<close>, decrements it on \<^verbatim>\<open>]\<close> and fails when the counter would
  go negative; \<open>scan d p\<close> is the counter after \<open>p\<close>, started at \<open>d\<close>. A program is
  balanced when the scan started at 0 ends at 0.
\<close>

fun scan :: "nat \<Rightarrow> char list \<Rightarrow> nat option" where
  "scan d [] = Some d"
| "scan d (c # cs) =
     (if c = CHR ''['' then scan (Suc d) cs
      else if c = CHR '']'' then (case d of 0 \<Rightarrow> None | Suc d' \<Rightarrow> scan d' cs)
      else scan d cs)"

definition balanced :: "char list \<Rightarrow> bool" where
  "balanced p = (scan 0 p = Some 0)"

text \<open>
  The specification speaks of the \<^verbatim>\<open>]\<close> matching a \<^verbatim>\<open>[\<close> at the same nesting depth (3 and the
  glossary). Offsets \<open>i\<close> and \<open>j\<close> hold a matching pair when \<open>i\<close> holds \<^verbatim>\<open>[\<close>, \<open>j\<close> after it
  holds \<^verbatim>\<open>]\<close>, and what lies between them is balanced. This is what the results of
  \<^verbatim>\<open>flookup\<close> and \<^verbatim>\<open>blookup\<close> are measured against.
\<close>

definition matching :: "char list \<Rightarrow> int \<Rightarrow> int \<Rightarrow> bool" where
  "matching code i j =
     (0 \<le> i \<and> i < j \<and> j < int (length code) \<and>
      code ! nat i = CHR ''['' \<and> code ! nat j = CHR '']'' \<and>
      balanced (take (nat (j - i - 1)) (drop (nat (i + 1)) code)))"

subsection \<open>The engine of the specification\<close>

text \<open>
  The second engine, after the words of the specification and not after src/bf.c: its
  dispatch table (4.3) sends a taken \<^verbatim>\<open>[\<close> to forward-match(ip) + 1 and a taken \<^verbatim>\<open>]\<close> to
  backward-match(ip) + 1, one past the bracket that \<^verbatim>\<open>flookup\<close> and \<^verbatim>\<open>blookup\<close> return.
  \<open>step_past\<close> is \<open>step\<close> with these two targets, and \<open>run_past\<close> is the loop around it;
  they are there to be compared with \<open>step\<close> and \<open>run\<close>.
\<close>

definition step_past :: "char list \<Rightarrow> state \<Rightarrow> error + state" where
  "step_past code s =
     (case fetch code (ip s) of
        None \<Rightarrow> Inl Undefined
      | Some c \<Rightarrow>
          if c = CHR ''['' then
            (case peek s of
               None \<Rightarrow> Inl Undefined
             | Some v \<Rightarrow>
                 if v = 0 then
                   (case flookup code (ip s) of
                      Inl e \<Rightarrow> Inl e
                    | Inr j \<Rightarrow> Inr (s\<lparr>ip := j + 1\<rparr>))
                 else Inr (s\<lparr>ip := ip s + 1\<rparr>))
          else if c = CHR '']'' then
            (case peek s of
               None \<Rightarrow> Inl Undefined
             | Some v \<Rightarrow>
                 if v \<noteq> 0 then
                   (case blookup code (ip s) of
                      Inl e \<Rightarrow> Inl e
                    | Inr j \<Rightarrow> Inr (s\<lparr>ip := j + 1\<rparr>))
                 else Inr (s\<lparr>ip := ip s + 1\<rparr>))
          else step code s)"

fun run_past :: "nat \<Rightarrow> char list \<Rightarrow> state \<Rightarrow> (error + state) option" where
  "run_past 0 code s = None"
| "run_past (Suc n) code s =
     (case fetch code (ip s) of
        None \<Rightarrow> Some (Inl Undefined)
      | Some c \<Rightarrow>
          if c = NUL then Some (Inr s)
          else (case step_past code s of
                  Inl e \<Rightarrow> Some (Inl e)
                | Inr s' \<Rightarrow> run_past n code s'))"

subsection \<open>Notions used in the proofs\<close>

text \<open>What a state holds besides the two streams.\<close>

definition tape_view :: "state \<Rightarrow> int \<times> int \<times> byte list" where
  "tape_view s = (ip s, dp s, data s)"

text \<open>A state is at a taken jump when \<^verbatim>\<open>*ip\<close> is \<^verbatim>\<open>[\<close> and the cell is zero, or \<^verbatim>\<open>*ip\<close> is \<^verbatim>\<open>]\<close>
  and the cell is not: the two cases in which \<^verbatim>\<open>main\<close> calls a lookup.\<close>

definition taken :: "char list \<Rightarrow> state \<Rightarrow> bool" where
  "taken code s =
     (fetch code (ip s) = Some (CHR ''['') \<and> peek s = Some 0 \<or>
      fetch code (ip s) = Some (CHR '']'') \<and> peek s \<noteq> None \<and> peek s \<noteq> Some 0)"

section \<open>Auxiliary facts\<close>

declare floop.simps [simp del] bloop.simps [simp del]

subsection \<open>The loader\<close>

lemma cread_loop_fits:
  "k + length inp \<le> length code \<Longrightarrow>
   cread_loop inp k code = Inr (take k code @ inp @ drop (k + length inp) code)"
proof (induction inp arbitrary: k code)
  case Nil
  then show ?case by simp
next
  case (Cons c cs)
  then have k: "k < length code" by simp
  have "cread_loop (c # cs) k code = cread_loop cs (Suc k) (code[k := c])"
    using k by simp
  also have "\<dots> = Inr (take (Suc k) (code[k := c]) @ cs @ drop (Suc k + length cs) (code[k := c]))"
    using Cons.prems by (intro Cons.IH) simp
  also have "take (Suc k) (code[k := c]) = take k code @ [c]"
    using k by (simp add: take_Suc_conv_app_nth)
  finally show ?case by simp
qed

lemma cread_loop_overrun:
  "length code < k + length inp \<Longrightarrow> k \<le> length code \<Longrightarrow> cread_loop inp k code = Inl Undefined"
  by (induction inp arbitrary: k code) auto


lemma cread_eq:
  "cread inp = (if length inp \<le> capacity then Inr (loaded inp) else Inl Undefined)"
  by (simp add: cread_def loaded_def cread_loop_fits cread_loop_overrun)

subsection \<open>The nesting counter\<close>

lemma scan_append:
  "scan d (xs @ ys) = (case scan d xs of None \<Rightarrow> None | Some m \<Rightarrow> scan m ys)"
  by (induction xs arbitrary: d) (auto split: nat.splits)

lemma scan_le: "scan d xs = Some m \<Longrightarrow> m \<le> d + length xs"
  by (induction xs arbitrary: d) (fastforce split: if_splits nat.splits)+

subsection \<open>The lookups find the matching bracket\<close>

text \<open>The counter of the lookups is a 32-bit word. Within an array of at most 30000 bytes it
  never counts further than the array is long, so it stays the nesting depth it stands for.\<close>

lemma word32_of_nat_eq_0:
  assumes "c < 2 ^ 32" shows "(of_nat c :: 32 word) = 0 \<longleftrightarrow> c = 0"
proof
  assume "(of_nat c :: 32 word) = 0"
  then have "(2::nat) ^ 32 dvd c" by (simp add: word_of_nat_eq_0_iff)
  with assms show "c = 0" using nat_dvd_not_less [of c "2 ^ 32"] by blast
qed simp

lemma fetch_nat: "i < length code \<Longrightarrow> fetch code (int i) = Some (code ! i)"
  by (simp add: fetch_def)

lemma floop_found:
  "fetch code i = Some (CHR '']'') \<Longrightarrow> floop code i 0 = Inr i"
  by (subst floop.simps) simp

lemma floop_next:
  "i < length code \<Longrightarrow> \<not> (code ! i = CHR '']'' \<and> count = 0) \<Longrightarrow>
   floop code (int i) count =
     floop code (int (Suc i))
       (if code ! i = CHR ''['' then count + 1
        else if code ! i = CHR '']'' then count - 1 else count)"
  by (subst floop.simps) (auto simp: fetch_nat add.commute)

lemma floop_finds:
  assumes len: "length code < 2 ^ 32"
  shows "scan n (drop i code) = Some m \<Longrightarrow> m + c < n \<Longrightarrow> c \<le> i \<Longrightarrow>
         \<exists>j. floop code (int i) (of_nat c) = Inr (int j) \<and> i \<le> j \<and> j < length code \<and>
             code ! j = CHR '']'' \<and> scan c (take (j - i) (drop i code)) = Some 0"
proof (induction k \<equiv> "length code - i" arbitrary: i c n)
  case 0
  then have "drop i code = []" by simp
  with "0.prems" show ?case by simp
next
  case (Suc k)
  then have i: "i < length code" by simp
  let ?x = "code ! i" and ?rest = "drop (Suc i) code"
  have drop: "drop i code = ?x # ?rest"
    using i by (simp add: Cons_nth_drop_Suc)
  have fetch: "fetch code (int i) = Some ?x"
    using i by (rule fetch_nat)
  have c32: "c < 2 ^ 32" and Sc32: "Suc c < 2 ^ 32"
    using Suc.prems(3) i len by simp_all
  have k: "k = length code - Suc i"
    using Suc.hyps(2) by simp
  have int_Suc: "int i + 1 = int (Suc i)" by simp
  consider (hit) "?x = CHR '']''" "c = 0"
    | (shut) "?x = CHR '']''" "0 < c"
    | (nest) "?x = CHR ''[''"
    | (skip) "?x \<noteq> CHR '']''" "?x \<noteq> CHR ''[''"
    by fastforce
  then show ?case
  proof cases
    case hit
    then have "floop code (int i) (of_nat c) = Inr (int i)"
      using fetch by (simp add: floop_found)
    with hit i show ?thesis by auto
  next
    case shut
    with Suc.prems(1) drop obtain n' where n: "n = Suc n'" and sc: "scan n' ?rest = Some m"
      by (auto split: nat.splits)
    from shut obtain c' where c: "c = Suc c'" by (cases c) auto
    have "(of_nat c :: 32 word) - 1 = of_nat c'"
      using c by simp
    moreover have "(of_nat c :: 32 word) \<noteq> 0"
      using word32_of_nat_eq_0 [OF c32] shut by simp
    ultimately have "floop code (int i) (of_nat c) = floop code (int (Suc i)) (of_nat c')"
      using floop_next [OF i, of "of_nat c"] shut(1) by simp
    moreover have "m + c' < n'" "c' \<le> Suc i"
      using Suc.prems n c by simp_all
    from Suc.hyps(1) [OF k sc this]
    obtain j where "floop code (int (Suc i)) (of_nat c') = Inr (int j)" "Suc i \<le> j"
        "j < length code" "code ! j = CHR '']''" "scan c' (take (j - Suc i) ?rest) = Some 0"
      by blast
    ultimately show ?thesis
      using shut c drop by (intro exI [of _ j]) (simp add: take_Cons')
  next
    case nest
    with Suc.prems(1) drop have sc: "scan (Suc n) ?rest = Some m"
      by auto
    have "floop code (int i) (of_nat c) = floop code (int (Suc i)) (of_nat (Suc c))"
      using floop_next [OF i, of "of_nat c"] nest by (simp add: add.commute)
    moreover have "m + Suc c < Suc n" "Suc c \<le> Suc i"
      using Suc.prems by simp_all
    from Suc.hyps(1) [OF k sc this]
    obtain j where "floop code (int (Suc i)) (of_nat (Suc c)) = Inr (int j)" "Suc i \<le> j"
        "j < length code" "code ! j = CHR '']''" "scan (Suc c) (take (j - Suc i) ?rest) = Some 0"
      by blast
    ultimately show ?thesis
      using nest drop by (intro exI [of _ j]) (simp add: take_Cons')
  next
    case skip
    with Suc.prems(1) drop have sc: "scan n ?rest = Some m"
      by auto
    have "floop code (int i) (of_nat c) = floop code (int (Suc i)) (of_nat c)"
      using floop_next [OF i, of "of_nat c"] skip by simp
    moreover have "m + c < n" "c \<le> Suc i"
      using Suc.prems by simp_all
    from Suc.hyps(1) [OF k sc this]
    obtain j where "floop code (int (Suc i)) (of_nat c) = Inr (int j)" "Suc i \<le> j"
        "j < length code" "code ! j = CHR '']''" "scan c (take (j - Suc i) ?rest) = Some 0"
      by blast
    ultimately show ?thesis
      using skip drop by (intro exI [of _ j]) (simp add: take_Cons')
  qed
qed


lemma bloop_found:
  "i < length code \<Longrightarrow> code ! i = CHR ''['' \<Longrightarrow> bloop code (int i) 0 = Inr (int i)"
  by (subst bloop.simps) (simp add: fetch_nat)

lemma bloop_next:
  "i < length code \<Longrightarrow> \<not> (code ! i = CHR ''['' \<and> count = 0) \<Longrightarrow>
   bloop code (int i) count =
     bloop code (int i - 1)
       (if code ! i = CHR '']'' then count + 1
        else if code ! i = CHR ''['' then count - 1 else count)"
  by (subst bloop.simps) (auto simp: fetch_nat)

lemma bloop_finds:
  assumes len: "length code < 2 ^ 32"
  shows "scan 0 (take k code) = Some h \<Longrightarrow> c < h \<Longrightarrow> k \<le> length code \<Longrightarrow> k \<le> j0 \<Longrightarrow>
         scan c (take (j0 - k) (drop k code)) = Some 0 \<Longrightarrow>
         \<exists>j. bloop code (int k - 1) (of_nat c) = Inr (int j) \<and> j < k \<and>
             code ! j = CHR ''['' \<and> scan 0 (take (j0 - Suc j) (drop (Suc j) code)) = Some 0"
proof (induction k arbitrary: c h)
  case 0
  then show ?case by simp
next
  case (Suc k)
  then have k: "k < length code" and kj: "k < j0" by simp_all
  let ?x = "code ! k" and ?seg = "take (j0 - Suc k) (drop (Suc k) code)"
  have "take (Suc k) code = take k code @ [?x]"
    using k by (simp add: take_Suc_conv_app_nth)
  with Suc.prems(1) obtain h0 where h0: "scan 0 (take k code) = Some h0"
    and x: "scan h0 [?x] = Some h"
    by (auto simp: scan_append split: option.splits)
  have seg: "scan c ?seg = Some 0"
    using Suc.prems(5) .
  have unfold: "take (j0 - k) (drop k code) = ?x # ?seg"
    using k kj by (simp add: Cons_nth_drop_Suc [symmetric] take_Cons' Suc_diff_Suc)
  have "h \<le> length (take (Suc k) code)"
    using scan_le [OF Suc.prems(1)] by simp
  then have c32: "c < 2 ^ 32"
    using Suc.prems(2,3) len by simp
  have pred: "int (Suc k) - 1 = int k" by simp
  have kl: "k \<le> length code" "k \<le> j0"
    using k kj by simp_all
  consider (hit) "?x = CHR ''[''" "c = 0"
    | (shut) "?x = CHR ''[''" "0 < c"
    | (nest) "?x = CHR '']''"
    | (skip) "?x \<noteq> CHR '']''" "?x \<noteq> CHR ''[''"
    by fastforce
  then show ?case
  proof cases
    case hit
    then have "bloop code (int k) (of_nat c) = Inr (int k)"
      using k by (simp add: bloop_found)
    with hit seg show ?thesis
      unfolding pred by (intro exI [of _ k]) simp
  next
    case shut
    from shut obtain c' where c: "c = Suc c'" by (cases c) auto
    from x shut obtain h: "h = Suc h0" by simp
    have "(of_nat c :: 32 word) - 1 = of_nat c'"
      using c by simp
    moreover have "(of_nat c :: 32 word) \<noteq> 0"
      using word32_of_nat_eq_0 [OF c32] shut by simp
    ultimately have "bloop code (int k) (of_nat c) = bloop code (int k - 1) (of_nat c')"
      using bloop_next [OF k, of "of_nat c"] shut(1) by simp
    moreover have "c' < h0" "scan c' (take (j0 - k) (drop k code)) = Some 0"
      using Suc.prems(2) c h seg shut(1) unfold by simp_all
    from Suc.IH [OF h0 this(1) kl this(2)]
    obtain j where "bloop code (int k - 1) (of_nat c') = Inr (int j)" "j < k"
        "code ! j = CHR ''[''" "scan 0 (take (j0 - Suc j) (drop (Suc j) code)) = Some 0"
      by blast
    ultimately show ?thesis
      unfolding pred by (intro exI [of _ j]) simp
  next
    case nest
    from x nest obtain h0: "h0 = Suc h" by (cases h0) simp_all
    have "bloop code (int k) (of_nat c) = bloop code (int k - 1) (of_nat (Suc c))"
      using bloop_next [OF k, of "of_nat c"] nest by (simp add: add.commute)
    moreover have "Suc c < h0" "scan (Suc c) (take (j0 - k) (drop k code)) = Some 0"
      using Suc.prems(2) h0 seg nest unfold by simp_all
    from Suc.IH [OF \<open>scan 0 (take k code) = Some h0\<close> this(1) kl this(2)]
    obtain j where "bloop code (int k - 1) (of_nat (Suc c)) = Inr (int j)" "j < k"
        "code ! j = CHR ''[''" "scan 0 (take (j0 - Suc j) (drop (Suc j) code)) = Some 0"
      by blast
    ultimately show ?thesis
      unfolding pred by (intro exI [of _ j]) simp
  next
    case skip
    from x skip have h: "h0 = h" by simp
    have "bloop code (int k) (of_nat c) = bloop code (int k - 1) (of_nat c)"
      using bloop_next [OF k, of "of_nat c"] skip by simp
    moreover have "c < h0" "scan c (take (j0 - k) (drop k code)) = Some 0"
      using Suc.prems(2) h seg skip unfold by simp_all
    from Suc.IH [OF h0 this(1) kl this(2)]
    obtain j where "bloop code (int k - 1) (of_nat c) = Inr (int j)" "j < k"
        "code ! j = CHR ''[''" "scan 0 (take (j0 - Suc j) (drop (Suc j) code)) = Some 0"
      by blast
    ultimately show ?thesis
      unfolding pred by (intro exI [of _ j]) simp
  qed
qed


lemma scan_shift: "scan d xs = Some m \<Longrightarrow> scan (d + k) xs = Some (m + k)"
proof (induction xs arbitrary: d)
  case Nil
  then show ?case by simp
next
  case (Cons x xs)
  show ?case
  proof (cases "x = CHR ''[''")
    case True
    with Cons.prems have "scan (Suc d) xs = Some m" by simp
    from Cons.IH [OF this] True show ?thesis by simp
  next
    case False
    show ?thesis
    proof (cases "x = CHR '']''")
      case True
      show ?thesis
      proof (cases d)
        case 0
        with Cons.prems True show ?thesis by simp
      next
        case (Suc d')
        with Cons.prems True have "scan d' xs = Some m" by simp
        from Cons.IH [OF this] True Suc show ?thesis by simp
      qed
    next
      case False
      with \<open>x \<noteq> CHR ''[''\<close> Cons.prems have "scan d xs = Some m" by simp
      from Cons.IH [OF this] False \<open>x \<noteq> CHR ''[''\<close> show ?thesis by simp
    qed
  qed
qed

lemma balanced_split:
  assumes "balanced code" "i < length code"
  obtains h where "scan 0 (take i code) = Some h" "scan h (code ! i # drop (Suc i) code) = Some 0"
proof -
  have "code = take i code @ code ! i # drop (Suc i) code"
    using assms(2) by (simp add: id_take_nth_drop [symmetric])
  then have "scan 0 (take i code @ code ! i # drop (Suc i) code) = Some 0"
    using assms(1) by (simp add: balanced_def)
  then show thesis
    by (auto simp: scan_append split: option.splits intro: that)
qed

lemma flookup_matching:
  assumes bal: "balanced code" and len: "length code \<le> capacity"
    and at: "fetch code i = Some (CHR ''['')"
  shows "\<exists>j. flookup code i = Inr j \<and> matching code i j"
proof -
  from at have i: "0 \<le> i" "nat i < length code" "code ! nat i = CHR ''[''"
    by (auto simp: fetch_def split: if_splits)
  from balanced_split [OF bal i(2)] i(3)
  obtain h where "scan (Suc h) (drop (Suc (nat i)) code) = Some 0"
    by auto
  moreover have "length code < 2 ^ 32"
    using len by (simp add: capacity_def)
  ultimately obtain j where j: "floop code (int (Suc (nat i))) 0 = Inr (int j)"
      "Suc (nat i) \<le> j" "j < length code" "code ! j = CHR '']''"
      "scan 0 (take (j - Suc (nat i)) (drop (Suc (nat i)) code)) = Some 0"
    using floop_finds [of code "Suc h" "Suc (nat i)" 0 0] by auto
  have "int (Suc (nat i)) = i + 1"
    using i(1) by simp
  with j(1) have "floop code (i + 1) 0 = Inr (int j)"
    by (simp only:)
  then have "flookup code i = Inr (int j)"
    by (simp only: flookup_def)
  moreover have "nat (int j - i - 1) = j - Suc (nat i)" "nat (i + 1) = Suc (nat i)"
    using i(1) j(2) by simp_all
  then have "matching code i (int j)"
    using i j by (simp add: matching_def balanced_def)
  ultimately show ?thesis by blast
qed

lemma blookup_matching:
  assumes bal: "balanced code" and len: "length code \<le> capacity"
    and at: "fetch code i = Some (CHR '']'')"
  shows "\<exists>j. blookup code i = Inr j \<and> matching code j i"
proof -
  from at have i: "0 \<le> i" "nat i < length code" "code ! nat i = CHR '']''"
    by (auto simp: fetch_def split: if_splits)
  from balanced_split [OF bal i(2)]
  obtain h0 where h0: "scan 0 (take (nat i) code) = Some h0"
    "scan h0 (code ! nat i # drop (Suc (nat i)) code) = Some 0"
    by blast
  from h0(2) i(3) obtain h where "h0 = Suc h"
    by (cases h0) simp_all
  with h0(1) have h: "scan 0 (take (nat i) code) = Some (Suc h)"
    by simp
  have "length code < 2 ^ 32"
    using len by (simp add: capacity_def)
  from bloop_finds [OF this h, of 0 "nat i"] i(2)
  obtain j where j: "bloop code (int (nat i) - 1) 0 = Inr (int j)" "j < nat i"
      "code ! j = CHR ''[''" "scan 0 (take (nat i - Suc j) (drop (Suc j) code)) = Some 0"
    by auto
  have "int (nat i) = i"
    using i(1) by simp
  with j(1) have "bloop code (i - 1) 0 = Inr (int j)"
    by (simp only:)
  then have "blookup code i = Inr (int j)"
    by (simp only: blookup_def)
  moreover have "nat (i - int j - 1) = nat i - Suc j" "nat (int j + 1) = Suc j"
    "int j < i" "i < int (length code)"
    using i(1,2) j(2) by simp_all
  then have "matching code (int j) i"
    using i j by (simp add: matching_def balanced_def)
  ultimately show ?thesis by blast
qed

lemma matching_fetch:
  "matching code i j \<Longrightarrow> fetch code i = Some (CHR ''['') \<and> fetch code j = Some (CHR '']'')"
  by (simp add: matching_def fetch_def)

text \<open>A bracket has at most one partner, so \<open>matching\<close> names the matching bracket.\<close>

lemma take_split_at:
  assumes "a < b" and "a < length xs"
  shows "take b xs = take a xs @ xs ! a # take (b - Suc a) (drop (Suc a) xs)"
proof -
  have "take b xs = take (a + (b - a)) xs"
    using assms(1) by simp
  also have "\<dots> = take a xs @ take (b - a) (drop a xs)"
    by (rule take_add)
  also have "drop a xs = xs ! a # drop (Suc a) xs"
    using assms(2) by (simp add: Cons_nth_drop_Suc)
  also have "take (b - a) (xs ! a # drop (Suc a) xs) = xs ! a # take (b - Suc a) (drop (Suc a) xs)"
    using assms(1) by (simp add: take_Cons')
  finally show ?thesis .
qed

lemma matching_close_unique:
  assumes "matching code i j" and "matching code i j'"
  shows "j = j'"
proof -
  have False if m: "matching code i j" "matching code i j'" and less: "j < j'" for j j'
  proof -
    let ?xs = "drop (nat (i + 1)) code" and ?a = "nat (j - i - 1)" and ?b = "nat (j' - i - 1)"
    from m less have a: "?a < ?b" "?a < length ?xs" "?xs ! ?a = CHR '']''"
      by (auto simp: matching_def nat_add_distrib nat_diff_distrib)
    from m have "scan 0 (take ?a ?xs) = Some 0" "scan 0 (take ?b ?xs) = Some 0"
      by (simp_all add: matching_def balanced_def)
    then show False
      using a(3) by (simp add: take_split_at [OF a(1,2)] scan_append)
  qed
  from this [of j j'] this [of j' j] assms show ?thesis
    by (cases j j' rule: linorder_cases) auto
qed

lemma matching_open_unique:
  assumes "matching code i j" and "matching code i' j"
  shows "i = i'"
proof -
  have False if m: "matching code i j" "matching code i' j" and less: "i < i'" for i i'
  proof -
    let ?xs = "drop (nat (i + 1)) code" and ?a = "nat (i' - i - 1)" and ?b = "nat (j - i - 1)"
    from m less have a: "?a < ?b" "?a < length ?xs" "?xs ! ?a = CHR ''[''"
      by (auto simp: matching_def nat_add_distrib nat_diff_distrib)
    have "drop (Suc ?a) ?xs = drop (nat (i' + 1)) code" "?b - Suc ?a = nat (j - i' - 1)"
      using m less by (auto simp: matching_def nat_add_distrib nat_diff_distrib)
    with m(2) have inner: "scan 0 (take (?b - Suc ?a) (drop (Suc ?a) ?xs)) = Some 0"
      by (simp add: matching_def balanced_def)
    from m(1) have "scan 0 (take ?b ?xs) = Some 0"
      by (simp add: matching_def balanced_def)
    then obtain h where "scan (Suc h) (take (?b - Suc ?a) (drop (Suc ?a) ?xs)) = Some 0"
      using a(3) by (auto simp: take_split_at [OF a(1,2)] scan_append split: option.splits)
    with scan_shift [OF inner, of "Suc h"] show False
      by simp
  qed
  from this [of i i'] this [of i' i] assms show ?thesis
    by (cases i i' rule: linorder_cases) auto
qed

subsection \<open>Concrete arrays and states\<close>

lemma loaded_length: "length inp \<le> capacity \<Longrightarrow> length (loaded inp) = capacity"
  by (simp add: loaded_def)

lemma fetch_loaded:
  "fetch (loaded inp) i =
     (if 0 \<le> i \<and> i < int (length inp) then Some (inp ! nat i)
      else if 0 \<le> i \<and> i < int capacity then Some NUL else None)"
  by (auto simp: fetch_def loaded_def nth_append)

lemma initial_sel:
  "ip (initial inp) = 0" "dp (initial inp) = 0" "data (initial inp) = replicate capacity 0"
  "stdin (initial inp) = inp" "stdout (initial inp) = []"
  by (simp_all add: initial_def)

lemma peek_initial: "peek (initial inp) = Some 0"
  by (simp add: peek_def initial_def capacity_def)

lemma run_num:
  "run (numeral k) code s =
     (case fetch code (ip s) of
        None \<Rightarrow> Some (Inl Undefined)
      | Some c \<Rightarrow>
          if c = NUL then Some (Inr s)
          else (case step code s of
                  Inl e \<Rightarrow> Some (Inl e)
                | Inr s' \<Rightarrow> run (pred_numeral k) code s'))"
  by (simp add: numeral_eq_Suc)

lemma run_past_num:
  "run_past (numeral k) code s =
     (case fetch code (ip s) of
        None \<Rightarrow> Some (Inl Undefined)
      | Some c \<Rightarrow>
          if c = NUL then Some (Inr s)
          else (case step_past code s of
                  Inl e \<Rightarrow> Some (Inl e)
                | Inr s' \<Rightarrow> run_past (pred_numeral k) code s'))"
  by (simp add: numeral_eq_Suc)

lemma floop_no_close:
  "0 \<le> i \<Longrightarrow> \<forall>k. i \<le> k \<and> k < int (length code) \<longrightarrow> code ! nat k \<noteq> CHR '']'' \<Longrightarrow>
   floop code i count = Inl Undefined"
proof (induction n \<equiv> "nat (int (length code) - i)" arbitrary: i count)
  case 0
  then show ?case by (subst floop.simps) (simp add: fetch_def)
next
  case (Suc n)
  then have i: "i < int (length code)" by simp
  with Suc.prems have "code ! nat i \<noteq> CHR '']''" by simp
  moreover have "floop code (i + 1) c' = Inl Undefined" for c'
    using Suc.hyps(2) Suc.prems by (intro Suc.hyps(1)) auto
  ultimately show ?case
    using Suc.prems(1) i by (subst floop.simps) (simp add: fetch_def)
qed

subsection \<open>The scenarios of the specification\<close>

text \<open>The four runs that the specification lists (8) come out of the model as it
  describes them: \<^verbatim>\<open>++.\<close> prints the byte 2, \<^verbatim>\<open>,.\<close> copies an input byte to the output,
  \<^verbatim>\<open>[-]\<close> clears a cell that holds 5, and \<^verbatim>\<open>+[>+<-]>.\<close> moves the 1 to the next cell and
  prints it.\<close>

lemma scenario_print_two:
  "map_option (map_sum id stdout) (main 4 ''++.'') = Some (Inr [2])"
  by (simp add: main_def cread_eq run_num fetch_loaded step_def initial_def NUL_def poke_def
      peek_def capacity_def)

lemma scenario_echo:
  "map_option (map_sum id stdout) (run 3 (loaded '',.'') (initial ''A'')) = Some (Inr [65])"
  by (simp add: run_num fetch_loaded step_def initial_def NUL_def poke_def peek_def capacity_def)

lemma scenario_clear:
  "map_option (map_sum id peek) (run 17 (loaded ''[-]'') (poke (initial []) 5)) = Some (Inr (Some 0))"
  by (simp add: run_num fetch_loaded step_def initial_def NUL_def poke_def peek_def
      blookup_def bloop.simps capacity_def)

lemma scenario_move:
  "map_option (map_sum id (\<lambda>s. (dp s, peek s, stdout s))) (main 13 ''+[>+<-]>.'')
     = Some (Inr (1, Some 1, [1]))"
  by (simp add: main_def cread_eq run_num fetch_loaded step_def initial_def NUL_def poke_def
      peek_def blookup_def bloop.simps capacity_def)

section \<open>The claims\<close>

subsection \<open>C1: the data pointer is not checked\<close>

text \<open>
  C1 (as amended). The program never compares \<^verbatim>\<open>dp\<close> with the bounds of the tape: a dispatch
  at \<^verbatim>\<open>>\<close> or \<^verbatim>\<open><\<close> always succeeds, moves \<^verbatim>\<open>dp\<close> by exactly one, also out of
  \<open>[0, capacity)\<close>, and advances \<^verbatim>\<open>ip\<close> by one, and the loop goes on from that state. There
  is no bounds error.
\<close>

theorem dp_moves_unchecked:
  assumes "fetch code (ip s) = Some c" and "c = CHR ''<'' \<or> c = CHR ''>''"
  shows "step code s
           = Inr (s\<lparr>dp := (if c = CHR ''>'' then dp s + 1 else dp s - 1), ip := ip s + 1\<rparr>) \<and>
         run (Suc n) code s
           = run n code (s\<lparr>dp := (if c = CHR ''>'' then dp s + 1 else dp s - 1), ip := ip s + 1\<rparr>)"
  using assms by (auto simp: step_def NUL_def)

theorem dp_moves_unchecked_witness:
  "fetch (loaded ''<'') (ip (initial [])) = Some (CHR ''<'') \<and>
   step (loaded ''<'') (initial []) = Inr ((initial [])\<lparr>dp := - 1, ip := 1\<rparr>) \<and>
   run (Suc 1) (loaded ''<'') (initial []) = run 1 (loaded ''<'') ((initial [])\<lparr>dp := - 1, ip := 1\<rparr>)"
  using dp_moves_unchecked [of "loaded ''<''" "initial []" "CHR ''<''" 1]
  by (simp add: fetch_loaded initial_def del: run.simps)

text \<open>
  The claim as stated asks for a stop with a bounds error at the first step that takes
  \<^verbatim>\<open>dp\<close> out of range. The program \<^verbatim>\<open><\<close> runs to its normal end, leaving \<^verbatim>\<open>dp\<close> at -1.
\<close>

theorem dp_below_zero_counterexample:
  "main 2 ''<'' = Some (Inr ((initial [])\<lparr>dp := - 1, ip := 1\<rparr>))"
  by (simp add: main_def cread_eq capacity_def run_num fetch_loaded step_def initial_def NUL_def)

subsection \<open>C2: the loader does not validate brackets\<close>

text \<open>
  C2 (as amended). \<^verbatim>\<open>cread\<close> checks nothing: every input of at most 30000 bytes, balanced
  or not, is copied to the array as it is, and \<^verbatim>\<open>main\<close> enters the interpreter loop on it.
\<close>

theorem cread_no_validation:
  assumes "length inp \<le> capacity"
  shows "cread inp = Inr (loaded inp) \<and> main fuel inp = run fuel (loaded inp) (initial [])"
  using assms by (simp add: cread_eq main_def)

theorem cread_no_validation_witness:
  "length ''['' \<le> capacity \<and> cread ''['' = Inr (loaded ''['') \<and>
   main 1 ''['' = run 1 (loaded ''['') (initial [])"
  using cread_no_validation [of "''[''" 1] by (simp add: capacity_def)

text \<open>
  The claim as stated has the unbalanced program \<^verbatim>\<open>[\<close> rejected before execution. It is
  loaded, and its first dispatch sends \<^verbatim>\<open>flookup\<close> past the end of the array.
\<close>

theorem unbalanced_loaded_counterexample:
  "\<not> balanced ''['' \<and> cread ''['' = Inr (loaded ''['') \<and> main 1 ''['' = Some (Inl Undefined)"
proof -
  have "floop (loaded ''['') 1 0 = Inl Undefined"
    by (rule floop_no_close) (auto simp: loaded_def nth_append NUL_def nat_less_iff)
  then have "step (loaded ''['') (initial []) = Inl Undefined"
    by (simp add: step_def fetch_loaded peek_initial flookup_def initial_sel)
  then have "run 1 (loaded ''['') (initial []) = Some (Inl Undefined)"
    by (simp add: fetch_loaded NUL_def initial_sel)
  then show ?thesis
    by (simp add: balanced_def main_def cread_eq capacity_def)
qed

subsection \<open>C5: input at the end of the stream\<close>

text \<open>
  C5 (as amended). When \<^verbatim>\<open>,\<close> is executed and standard input is at its end, \<^verbatim>\<open>getchar\<close>
  returns \<^verbatim>\<open>EOF\<close> and the assignment stores it, cut to a byte, in the cell: \<^verbatim>\<open>tape[dp]\<close>
  becomes 255 (all bits set), and \<^verbatim>\<open>ip\<close> is incremented by 1.
\<close>

theorem comma_at_eof_stores_EOF:
  assumes "fetch code (ip s) = Some (CHR '','')" and "stdin s = []" and "peek s = Some v"
  shows "step code s = Inr ((poke s 255)\<lparr>ip := ip s + 1\<rparr>) \<and>
         peek ((poke s 255)\<lparr>ip := ip s + 1\<rparr>) = Some 255"
proof -
  have "(word_of_int EOF :: byte) = 255"
    by (simp add: EOF_def)
  moreover have "s\<lparr>stdin := []\<rparr> = s"
    using assms(2) by (cases s) simp
  moreover have "peek ((poke s 255)\<lparr>ip := ip s + 1\<rparr>) = Some 255"
    using assms(3) by (simp add: peek_def poke_def split: if_splits)
  ultimately show ?thesis
    using assms by (simp add: step_def poke_def)
qed

theorem comma_at_eof_stores_EOF_witness:
  "fetch (loaded '','') (ip (initial [])) = Some (CHR '','') \<and> stdin (initial []) = [] \<and>
   peek (initial []) = Some 0 \<and>
   step (loaded '','') (initial []) = Inr ((poke (initial []) 255)\<lparr>ip := 1\<rparr>) \<and>
   peek ((poke (initial []) 255)\<lparr>ip := 1\<rparr>) = Some 255"
  using comma_at_eof_stores_EOF [of "loaded '',''" "initial []" 0]
  by (simp add: fetch_loaded initial_sel peek_initial)

text \<open>The claim as stated has the cell set to 0. The program \<^verbatim>\<open>,\<close> ends with 255 in the
  cell under \<^verbatim>\<open>dp\<close>.\<close>

theorem comma_at_eof_counterexample:
  "map_option (map_sum id peek) (main 2 '','') = Some (Inr (Some 255))"
  by (simp add: main_def cread_eq capacity_def run_num fetch_loaded step_def initial_sel
      peek_initial NUL_def EOF_def poke_def peek_def)

subsection \<open>C9: bytes that are not instructions\<close>



subsection \<open>C6: cells wrap around\<close>

lemma poke_peek_id: "peek s = Some v \<Longrightarrow> poke s v = s"
  by (cases s) (auto simp: peek_def poke_def split: if_splits)

lemma peek_poke: "peek s = Some v \<Longrightarrow> peek ((poke s w)\<lparr>ip := j\<rparr>) = Some w"
  by (auto simp: peek_def poke_def split: if_splits)

lemma run_repeat:
  assumes "c = CHR ''+'' \<and> d = 1 \<or> c = CHR ''-'' \<and> d = - 1"
  shows "\<forall>k<m. fetch code (ip s + int k) = Some c \<Longrightarrow> peek s = Some v \<Longrightarrow>
         run (m + n) code s = run n code ((poke s (v + of_nat m * d))\<lparr>ip := ip s + int m\<rparr>)"
proof (induction m arbitrary: s v)
  case 0
  then show ?case by (simp add: poke_peek_id)
next
  case (Suc m)
  let ?s = "(poke s (v + d))\<lparr>ip := ip s + 1\<rparr>"
  from Suc.prems(1) have here: "fetch code (ip s) = Some c"
    by force
  have step: "step code s = Inr ?s"
    using assms here Suc.prems(2) by (auto simp: step_def)
  have "c \<noteq> NUL"
    using assms by (auto simp: NUL_def)
  with here step have "run (Suc m + n) code s = run (m + n) code ?s"
    by simp
  also have "\<dots> = run n code ((poke ?s (v + d + of_nat m * d))\<lparr>ip := ip ?s + int m\<rparr>)"
  proof (rule Suc.IH)
    show "\<forall>k<m. fetch code (ip ?s + int k) = Some c"
    proof (intro allI impI)
      fix k assume "k < m"
      then have "Suc k < Suc m" by simp
      from Suc.prems(1) [rule_format, OF this]
      have "fetch code (ip s + int (Suc k)) = Some c" .
      moreover have "ip ?s + int k = ip s + int (Suc k)"
        by (simp add: poke_def)
      ultimately show "fetch code (ip ?s + int k) = Some c"
        by (simp only:)
    qed
    show "peek ?s = Some (v + d)"
      using Suc.prems(2) by (rule peek_poke)
  qed
  also have "(poke ?s (v + d + of_nat m * d))\<lparr>ip := ip ?s + int m\<rparr>
      = (poke s (v + of_nat (Suc m) * d))\<lparr>ip := ip s + int (Suc m)\<rparr>"
    by (simp add: poke_def algebra_simps)
  finally show ?case .
qed

text \<open>
  C6. Cells are bytes with arithmetic modulo 256: whatever the value \<open>v\<close> of a cell, 256
  executions of \<^verbatim>\<open>+\<close> (or 256 of \<^verbatim>\<open>-\<close>) leave the state as it was but for \<^verbatim>\<open>ip\<close>, one
  execution turns \<open>v\<close> into \<open>v + 1\<close> (or \<open>v - 1\<close>), and 255 + 1 = 0, 0 - 1 = 255.
\<close>

theorem cell_wraps_after_256:
  assumes "peek s = Some v" and "c = CHR ''+'' \<or> c = CHR ''-''"
    and "\<forall>k<256. fetch code (ip s + int k) = Some c"
  shows "run (256 + n) code s = run n code (s\<lparr>ip := ip s + 256\<rparr>) \<and>
         map_sum id peek (step code s) = Inr (Some (if c = CHR ''+'' then v + 1 else v - 1)) \<and>
         (255 :: byte) + 1 = 0 \<and> (0 :: byte) - 1 = 255"
proof -
  obtain d :: byte where d: "c = CHR ''+'' \<and> d = 1 \<or> c = CHR ''-'' \<and> d = - 1"
    using assms(2) by auto
  have "of_nat 256 * d = (256 :: byte) * d"
    by simp
  also have "(256 :: byte) = 0"
    by simp
  finally have "of_nat 256 * d = 0"
    by (simp only: mult_zero_left)
  with run_repeat [OF d assms(3,1), of n]
  have "run (256 + n) code s = run n code ((poke s v)\<lparr>ip := ip s + 256\<rparr>)"
    by simp
  moreover from assms(3) have "fetch code (ip s) = Some c"
    by force
  then have "map_sum id peek (step code s) = Inr (Some (if c = CHR ''+'' then v + 1 else v - 1))"
    using assms(1,2) by (auto simp: step_def peek_poke)
  ultimately show ?thesis
    using assms(1) by (simp add: poke_peek_id)
qed

theorem cell_wraps_after_256_witness:
  "peek ((poke (initial []) 7)) = Some 7 \<and>
   run (256 + 1) (loaded (replicate 256 (CHR ''+''))) (poke (initial []) 7)
     = Some (Inr ((poke (initial []) 7)\<lparr>ip := 256\<rparr>)) \<and>
   map_sum id peek (step (loaded (replicate 256 (CHR ''+''))) (poke (initial []) 7)) = Inr (Some 8)"
proof -
  let ?s = "poke (initial []) 7"
  have p: "peek ?s = Some 7"
    by (simp add: peek_def poke_def initial_sel capacity_def)
  have f: "\<forall>k<256. fetch (loaded (replicate 256 (CHR ''+''))) (ip ?s + int k) = Some (CHR ''+'')"
    by (simp add: fetch_loaded poke_def initial_sel)
  have "run 1 (loaded (replicate 256 (CHR ''+''))) (?s\<lparr>ip := 256\<rparr>) = Some (Inr (?s\<lparr>ip := 256\<rparr>))"
    by (simp add: fetch_loaded capacity_def)
  with cell_wraps_after_256 [OF p _ f, of 1] p show ?thesis
    by (simp add: poke_def initial_sel del: run.simps)
qed

subsection \<open>C8: the lookups of a balanced program\<close>

lemma scan_NULs: "scan d (replicate n NUL) = Some d"
  by (induction n) (simp_all add: NUL_def)

lemma balanced_loaded: "balanced (loaded inp) \<longleftrightarrow> balanced inp"
  by (auto simp: balanced_def loaded_def scan_append scan_NULs split: option.splits)

text \<open>
  C8. In a balanced program, \<^verbatim>\<open>flookup\<close> called at any \<^verbatim>\<open>[\<close> and \<^verbatim>\<open>blookup\<close> called at any
  \<^verbatim>\<open>]\<close> return (they are total functions of the program and the offset, and the result is
  never the error), and what they return is an offset inside the buffer: that of a \<^verbatim>\<open>]\<close>
  after the \<^verbatim>\<open>[\<close>, that of a \<^verbatim>\<open>[\<close> before the \<^verbatim>\<open>]\<close>.
\<close>

theorem lookups_stay_in_bounds:
  assumes "balanced code" and "length code \<le> capacity"
  shows "(fetch code i = Some (CHR ''['') \<longrightarrow>
            (\<exists>j. flookup code i = Inr j \<and> i < j \<and> j < int (length code) \<and>
                 fetch code j = Some (CHR '']''))) \<and>
         (fetch code i = Some (CHR '']'') \<longrightarrow>
            (\<exists>j. blookup code i = Inr j \<and> 0 \<le> j \<and> j < i \<and>
                 fetch code j = Some (CHR ''['')))"
proof (intro conjI impI)
  assume "fetch code i = Some (CHR ''['')"
  from flookup_matching [OF assms this]
  obtain j where "flookup code i = Inr j" "matching code i j" by blast
  then show "\<exists>j. flookup code i = Inr j \<and> i < j \<and> j < int (length code) \<and>
      fetch code j = Some (CHR '']'')"
    by (auto simp: matching_def fetch_def)
next
  assume "fetch code i = Some (CHR '']'')"
  from blookup_matching [OF assms this]
  obtain j where "blookup code i = Inr j" "matching code j i" by blast
  then show "\<exists>j. blookup code i = Inr j \<and> 0 \<le> j \<and> j < i \<and> fetch code j = Some (CHR ''['')"
    by (auto simp: matching_def fetch_def)
qed

theorem lookups_stay_in_bounds_witness:
  "balanced (loaded ''[[-]+]'') \<and> length (loaded ''[[-]+]'') \<le> capacity \<and>
   fetch (loaded ''[[-]+]'') 0 = Some (CHR ''['') \<and> flookup (loaded ''[[-]+]'') 0 = Inr 5 \<and>
   fetch (loaded ''[[-]+]'') 5 = Some (CHR '']'') \<and> blookup (loaded ''[[-]+]'') 5 = Inr 0"
proof -
  let ?W = "loaded ''[[-]+]''"
  have b: "balanced ?W"
    by (simp add: balanced_loaded) (simp add: balanced_def)
  have l: "length ?W \<le> capacity"
    by (simp add: loaded_length capacity_def)
  have f: "fetch ?W 0 = Some (CHR ''['')" "fetch ?W 5 = Some (CHR '']'')"
    by (simp_all add: fetch_loaded)
  have "flookup ?W 0 = Inr 5"
    by (simp add: flookup_def floop.simps fetch_loaded)
  moreover have "blookup ?W 5 = Inr 0"
    by (simp add: blookup_def bloop.simps fetch_loaded)
  ultimately show ?thesis
    using lookups_stay_in_bounds [OF b l, of 0] lookups_stay_in_bounds [OF b l, of 5] b l f
    by simp
qed

subsection \<open>C3: where a taken jump lands\<close>

text \<open>
  C3 (as amended). In a balanced program, one dispatch at a \<^verbatim>\<open>[\<close> with \<^verbatim>\<open>tape[dp] == 0\<close>
  sets \<^verbatim>\<open>ip\<close> to forward-match(ip), the offset of the matching \<^verbatim>\<open>]\<close> itself, and one
  dispatch at a \<^verbatim>\<open>]\<close> with \<^verbatim>\<open>tape[dp] != 0\<close> sets \<^verbatim>\<open>ip\<close> to backward-match(ip), the offset of
  the matching \<^verbatim>\<open>[\<close> itself; in the other cases \<^verbatim>\<open>ip\<close> is incremented by 1.
\<close>

theorem taken_jump_lands_on_bracket:
  assumes "balanced code" and "length code \<le> capacity"
    and "fetch code (ip s) = Some c" and "peek s = Some v"
  shows "(c = CHR ''['' \<and> v = 0 \<longrightarrow>
            (\<exists>j. flookup code (ip s) = Inr j \<and> matching code (ip s) j \<and>
                 step code s = Inr (s\<lparr>ip := j\<rparr>))) \<and>
         (c = CHR '']'' \<and> v \<noteq> 0 \<longrightarrow>
            (\<exists>j. blookup code (ip s) = Inr j \<and> matching code j (ip s) \<and>
                 step code s = Inr (s\<lparr>ip := j\<rparr>))) \<and>
         (\<not> (c = CHR ''['' \<and> v = 0) \<and> \<not> (c = CHR '']'' \<and> v \<noteq> 0) \<longrightarrow>
            (\<exists>s'. step code s = Inr s' \<and> ip s' = ip s + 1))"
proof (intro conjI impI)
  assume "c = CHR ''['' \<and> v = 0"
  with assms(3) flookup_matching [OF assms(1,2), of "ip s"]
  obtain j where "flookup code (ip s) = Inr j" "matching code (ip s) j" by blast
  with \<open>c = CHR ''['' \<and> v = 0\<close> assms(3,4)
  show "\<exists>j. flookup code (ip s) = Inr j \<and> matching code (ip s) j \<and> step code s = Inr (s\<lparr>ip := j\<rparr>)"
    by (simp add: step_def)
next
  assume "c = CHR '']'' \<and> v \<noteq> 0"
  with assms(3) blookup_matching [OF assms(1,2), of "ip s"]
  obtain j where "blookup code (ip s) = Inr j" "matching code j (ip s)" by blast
  with \<open>c = CHR '']'' \<and> v \<noteq> 0\<close> assms(3,4)
  show "\<exists>j. blookup code (ip s) = Inr j \<and> matching code j (ip s) \<and> step code s = Inr (s\<lparr>ip := j\<rparr>)"
    by (simp add: step_def)
next
  assume "\<not> (c = CHR ''['' \<and> v = 0) \<and> \<not> (c = CHR '']'' \<and> v \<noteq> 0)"
  with assms(3,4) show "\<exists>s'. step code s = Inr s' \<and> ip s' = ip s + 1"
    by (auto simp: step_def poke_def split: prod.splits)
qed

theorem taken_jump_lands_on_bracket_witness:
  "balanced (loaded ''[]'') \<and> length (loaded ''[]'') \<le> capacity \<and>
   fetch (loaded ''[]'') (ip (initial [])) = Some (CHR ''['') \<and> peek (initial []) = Some 0 \<and>
   flookup (loaded ''[]'') 0 = Inr 1 \<and> matching (loaded ''[]'') 0 1 \<and>
   step (loaded ''[]'') (initial []) = Inr ((initial [])\<lparr>ip := 1\<rparr>)"
proof -
  let ?W = "loaded ''[]''"
  have b: "balanced ?W"
    by (simp add: balanced_loaded) (simp add: balanced_def)
  have l: "length ?W \<le> capacity"
    by (simp add: loaded_length capacity_def)
  have f: "fetch ?W (ip (initial [])) = Some (CHR ''['')"
    by (simp add: fetch_loaded initial_sel)
  have "flookup ?W 0 = Inr 1"
    by (simp add: flookup_def floop.simps fetch_loaded)
  with taken_jump_lands_on_bracket [OF b l f peek_initial] b l f show ?thesis
    by (simp add: peek_initial initial_sel)
qed

text \<open>The claim as stated has the jump land one past the matching bracket. In \<^verbatim>\<open>[]\<close> the
  taken \<^verbatim>\<open>[\<close> goes to offset 1, not 2, and the taken \<^verbatim>\<open>]\<close> to offset 0, not 1.\<close>

theorem taken_jump_counterexample:
  "flookup (loaded ''[]'') 0 = Inr 1 \<and>
   step (loaded ''[]'') (initial []) = Inr ((initial [])\<lparr>ip := 1\<rparr>) \<and>
   step (loaded ''[]'') (initial []) \<noteq> Inr ((initial [])\<lparr>ip := 1 + 1\<rparr>) \<and>
   blookup (loaded ''[]'') 1 = Inr 0 \<and>
   step (loaded ''[]'') ((poke (initial []) 1)\<lparr>ip := 1\<rparr>) = Inr ((poke (initial []) 1)\<lparr>ip := 0\<rparr>) \<and>
   step (loaded ''[]'') ((poke (initial []) 1)\<lparr>ip := 1\<rparr>) \<noteq> Inr ((poke (initial []) 1)\<lparr>ip := 0 + 1\<rparr>)"
proof -
  have "flookup (loaded ''[]'') 0 = Inr 1"
    by (simp add: flookup_def floop.simps fetch_loaded)
  moreover have "blookup (loaded ''[]'') 1 = Inr 0"
    by (simp add: blookup_def bloop.simps fetch_loaded)
  moreover have "peek ((poke (initial []) 1)\<lparr>ip := 1\<rparr>) = Some 1"
    using peek_initial by (rule peek_poke)
  ultimately show ?thesis
    by (simp add: step_def fetch_loaded peek_initial initial_sel) (simp add: initial_def poke_def)
qed

subsection \<open>C4: when the loop ends\<close>

lemma floop_Inr:
  "floop code i count = Inr j \<Longrightarrow> i \<le> j \<and> fetch code j = Some (CHR '']'')"
proof (induction n \<equiv> "nat (int (length code) - i)" arbitrary: i count)
  case 0
  then have "fetch code i = None" by (simp add: fetch_def)
  with "0.prems" show ?case by (subst (asm) floop.simps) simp
next
  case (Suc n)
  show ?case
  proof (cases "fetch code i")
    case None
    with Suc.prems show ?thesis by (subst (asm) floop.simps) simp
  next
    case (Some x)
    show ?thesis
    proof (cases "x = CHR '']'' \<and> count = 0")
      case True
      with Some Suc.prems show ?thesis by (subst (asm) floop.simps) simp
    next
      case False
      with Some Suc.prems obtain count' where "floop code (i + 1) count' = Inr j"
        by (subst (asm) floop.simps) (simp add: Let_def)
      moreover have "n = nat (int (length code) - (i + 1))"
        using Suc.hyps(2) by simp
      ultimately have "i + 1 \<le> j \<and> fetch code j = Some (CHR '']'')"
        by (rule Suc.hyps(1) [rotated])
      then show ?thesis by simp
    qed
  qed
qed

lemma bloop_Inr:
  "bloop code i count = Inr j \<Longrightarrow> j \<le> i \<and> fetch code j = Some (CHR ''['')"
proof (induction n \<equiv> "nat (i + 1)" arbitrary: i count)
  case 0
  then have "fetch code i = None" by (simp add: fetch_def)
  with "0.prems" show ?case by (subst (asm) bloop.simps) simp
next
  case (Suc n)
  show ?case
  proof (cases "fetch code i")
    case None
    with Suc.prems show ?thesis by (subst (asm) bloop.simps) simp
  next
    case (Some x)
    show ?thesis
    proof (cases "x = CHR ''['' \<and> count = 0")
      case True
      with Some Suc.prems show ?thesis by (subst (asm) bloop.simps) simp
    next
      case False
      with Some Suc.prems obtain count' where "bloop code (i - 1) count' = Inr j"
        by (subst (asm) bloop.simps) (simp add: Let_def)
      moreover have "n = nat (i - 1 + 1)"
        using Suc.hyps(2) by simp
      ultimately have "j \<le> i - 1 \<and> fetch code j = Some (CHR ''['')"
        by (rule Suc.hyps(1) [rotated])
      then show ?thesis by simp
    qed
  qed
qed

lemma step_ip:
  assumes "step code s = Inr s'"
  shows "ip s' = ip s + 1 \<or> fetch code (ip s') = Some (CHR '']'') \<or>
         fetch code (ip s') = Some (CHR ''['')"
proof -
  have "fetch code j = Some (CHR '']'')" if "flookup code (ip s) = Inr j" for j
    using that floop_Inr by (simp add: flookup_def)
  moreover have "fetch code j = Some (CHR ''['')" if "blookup code (ip s) = Inr j" for j
    using that bloop_Inr by (simp add: blookup_def)
  ultimately show ?thesis
    using assms
    by (auto simp: step_def poke_def split: option.splits if_splits prod.splits sum.splits)
qed

lemma run_ends_on_NUL:
  "run n code s = Some (Inr s') \<Longrightarrow> fetch code (ip s') = Some NUL"
proof (induction n arbitrary: s)
  case 0
  then show ?case by simp
next
  case (Suc n)
  then show ?case
    by (auto split: option.splits if_splits sum.splits)
qed

lemma fetch_loaded_NUL:
  assumes "length inp < capacity" and "NUL \<notin> set inp" and "0 \<le> i" and "i \<le> int (length inp)"
  shows "fetch (loaded inp) i = Some NUL \<longleftrightarrow> i = int (length inp)"
proof (cases "i < int (length inp)")
  case True
  with assms(3) have "inp ! nat i \<in> set inp"
    by (intro nth_mem) simp
  with assms(2) have "inp ! nat i \<noteq> NUL"
    by metis
  with True assms(3) show ?thesis
    by (simp add: fetch_loaded)
next
  case False
  with assms show ?thesis
    by (simp add: fetch_loaded)
qed

lemma run_ends_at_length:
  assumes "length inp < capacity" and "NUL \<notin> set inp"
  shows "run n (loaded inp) s = Some (Inr s') \<Longrightarrow> 0 \<le> ip s \<Longrightarrow> ip s \<le> int (length inp) \<Longrightarrow>
         ip s' = int (length inp)"
proof (induction n arbitrary: s)
  case 0
  then show ?case by simp
next
  case (Suc n)
  have inside: "0 \<le> i \<and> i < int (length inp)"
    if "fetch (loaded inp) i = Some c" "c \<noteq> NUL" for i c
    using that by (auto simp: fetch_loaded split: if_splits)
  from Suc.prems(1) obtain c where c: "fetch (loaded inp) (ip s) = Some c"
    by (auto split: option.splits)
  show ?case
  proof (cases "c = NUL")
    case True
    with c Suc.prems(1) have "s' = s"
      by simp
    with True c fetch_loaded_NUL [OF assms Suc.prems(2,3)] show ?thesis
      by simp
  next
    case False
    with c Suc.prems(1) obtain s1 where s1: "step (loaded inp) s = Inr s1"
      and run: "run n (loaded inp) s1 = Some (Inr s')"
      by (auto split: sum.splits)
    from inside [OF c False] have "0 \<le> ip s" "ip s < int (length inp)"
      by simp_all
    moreover from step_ip [OF s1] inside
    have "ip s1 = ip s + 1 \<or> 0 \<le> ip s1 \<and> ip s1 < int (length inp)"
      by (auto simp: NUL_def)
    ultimately have "0 \<le> ip s1" "ip s1 \<le> int (length inp)"
      by auto
    with run show ?thesis
      by (rule Suc.IH)
  qed
qed

text \<open>
  C4 (as amended). The loop ends exactly when the byte at \<^verbatim>\<open>ip\<close> is the zero byte, and not
  before: the loop is left in state \<open>s\<close> if and only if \<^verbatim>\<open>*ip\<close> is zero there. For a loaded
  program of fewer than 30000 bytes none of which is zero, that is exactly when \<^verbatim>\<open>ip\<close>
  equals the number of loaded bytes, and every run of \<^verbatim>\<open>main\<close> that ends, ends there.
\<close>

theorem halts_on_NUL:
  "(run (Suc n) code s = Some (Inr s) \<longleftrightarrow> fetch code (ip s) = Some NUL) \<and>
   (length inp < capacity \<and> NUL \<notin> set inp \<longrightarrow>
      (0 \<le> i \<and> i \<le> int (length inp) \<longrightarrow>
         (fetch (loaded inp) i = Some NUL \<longleftrightarrow> i = int (length inp))) \<and>
      (main fuel inp = Some (Inr s') \<longrightarrow> ip s' = int (length inp)))"
proof (intro conjI impI)
  show "run (Suc n) code s = Some (Inr s) \<longleftrightarrow> fetch code (ip s) = Some NUL"
    using run_ends_on_NUL [of "Suc n" code s s] by auto
next
  assume "length inp < capacity \<and> NUL \<notin> set inp" "0 \<le> i \<and> i \<le> int (length inp)"
  then show "fetch (loaded inp) i = Some NUL \<longleftrightarrow> i = int (length inp)"
    by (intro fetch_loaded_NUL) simp_all
next
  assume a: "length inp < capacity \<and> NUL \<notin> set inp" and "main fuel inp = Some (Inr s')"
  then have "run fuel (loaded inp) (initial []) = Some (Inr s')"
    by (simp add: main_def cread_eq)
  from run_ends_at_length [OF _ _ this] a show "ip s' = int (length inp)"
    by (simp add: initial_sel)
qed

theorem halts_on_NUL_witness:
  "length ''+'' < capacity \<and> NUL \<notin> set ''+'' \<and>
   fetch (loaded ''+'') 1 = Some NUL \<and>
   main 2 ''+'' = Some (Inr ((poke (initial []) 1)\<lparr>ip := 1\<rparr>)) \<and>
   ip ((poke (initial []) 1)\<lparr>ip := 1\<rparr>) = int (length ''+'')"
proof -
  have m: "main 2 ''+'' = Some (Inr ((poke (initial []) 1)\<lparr>ip := 1\<rparr>))"
    by (simp add: main_def cread_eq capacity_def run_num fetch_loaded step_def initial_sel
        peek_initial NUL_def)
  have h: "length ''+'' < capacity \<and> NUL \<notin> set ''+''"
    by (simp add: capacity_def NUL_def)
  from halts_on_NUL [of 0 "loaded ''+''" "initial []" "''+''" 1 2 "(poke (initial []) 1)\<lparr>ip := 1\<rparr>"]
    m h
  show ?thesis
    by simp
qed

text \<open>The claim as stated has the loop end only where the loaded bytes end. A program of
  three bytes whose second byte is zero ends with \<^verbatim>\<open>ip\<close> at 1.\<close>

theorem halts_before_end_counterexample:
  "map_option (map_sum id ip) (main 2 [CHR ''+'', NUL, CHR ''+'']) = Some (Inr 1) \<and>
   length [CHR ''+'', NUL, CHR ''+''] = 3"
  by (simp add: main_def cread_eq capacity_def run_num fetch_loaded step_def initial_sel
      peek_initial NUL_def poke_def)

subsection \<open>C7: the tape does not depend on the streams\<close>

lemma fetch_in_set: "fetch code i = Some c \<Longrightarrow> c \<in> set code"
  by (auto simp: fetch_def split: if_splits)

lemma step_view:
  assumes "CHR '','' \<notin> set code" and "tape_view s = tape_view t"
  shows "map_sum id tape_view (step code s) = map_sum id tape_view (step code t)"
proof (cases "fetch code (ip s)")
  case None
  with assms(2) show ?thesis by (simp add: step_def tape_view_def)
next
  case (Some c)
  with assms(1) have c: "c \<noteq> CHR '',''"
    using fetch_in_set by metis
  from assms(2) have eq: "ip t = ip s" "dp t = dp s" "data t = data s" "peek t = peek s"
    by (simp_all add: tape_view_def peek_def)
  show ?thesis
    using Some c
    by (simp add: step_def eq tape_view_def poke_def split: option.splits sum.splits)
qed

lemma run_view:
  assumes "CHR '','' \<notin> set code"
  shows "tape_view s = tape_view t \<Longrightarrow>
         map_option (map_sum id tape_view) (run n code s)
           = map_option (map_sum id tape_view) (run n code t)"
proof (induction n arbitrary: s t)
  case 0
  then show ?case by simp
next
  case (Suc n)
  then have ip: "ip t = ip s" by (simp add: tape_view_def)
  show ?case
  proof (cases "fetch code (ip s)")
    case None
    with ip show ?thesis by simp
  next
    case (Some c)
    show ?thesis
    proof (cases "c = NUL")
      case True
      with Some ip Suc.prems show ?thesis by simp
    next
      case False
      from step_view [OF assms Suc.prems]
      consider e where "step code s = Inl e" "step code t = Inl e"
        | s' t' where "step code s = Inr s'" "step code t = Inr t'" "tape_view s' = tape_view t'"
        by (cases "step code s"; cases "step code t") auto
      then show ?thesis
      proof cases
        case 1
        with Some False ip show ?thesis by simp
      next
        case 2
        with Some False ip Suc.IH [OF 2(3)] show ?thesis by simp
      qed
    qed
  qed
qed

lemma run_more_fuel: "run n code s = Some r \<Longrightarrow> n \<le> m \<Longrightarrow> run m code s = Some r"
proof (induction n arbitrary: s m)
  case 0
  then show ?case by simp
next
  case (Suc n)
  then obtain m' where m: "m = Suc m'" "n \<le> m'"
    by (cases m) auto
  with Suc.prems(1) Suc.IH [of _ m'] show ?case
    by (auto split: option.splits sum.splits if_splits)
qed

lemma notin_loaded: "c \<notin> set inp \<Longrightarrow> c \<noteq> NUL \<Longrightarrow> c \<notin> set (loaded inp)"
  by (auto simp: loaded_def)

text \<open>
  C7. For every program without \<^verbatim>\<open>,\<close> (so for every balanced program with neither \<^verbatim>\<open>,\<close>
  nor \<^verbatim>\<open>.\<close>), two runs from a fresh zeroed tape with \<^verbatim>\<open>ip\<close> and \<^verbatim>\<open>dp\<close> at 0 end alike,
  whatever is left on standard input and however much fuel each is given: one has ended
  after \<open>n\<close> dispatches if and only if the other has, and when both have ended, both ended
  normally with the same tape contents, or both left an array.
\<close>

theorem tape_is_deterministic:
  assumes "CHR '','' \<notin> set code"
  shows "(run n code (initial inp1) = None \<longleftrightarrow> run n code (initial inp2) = None) \<and>
         (run n code (initial inp1) = Some r1 \<and> run m code (initial inp2) = Some r2 \<longrightarrow>
            map_sum id data r1 = map_sum id data r2)"
proof -
  have view: "tape_view (initial inp1) = tape_view (initial inp2)"
    by (simp add: tape_view_def initial_def)
  have eq: "map_option (map_sum id tape_view) (run k code (initial inp1))
      = map_option (map_sum id tape_view) (run k code (initial inp2))" for k
    using assms view by (rule run_view)
  have "run n code (initial inp1) = None \<longleftrightarrow> run n code (initial inp2) = None"
    using eq [of n] by (metis map_option_is_None)
  moreover have "map_sum id data r1 = map_sum id data r2"
    if "run n code (initial inp1) = Some r1" "run m code (initial inp2) = Some r2"
  proof -
    let ?k = "max n m"
    have "run ?k code (initial inp1) = Some r1" "run ?k code (initial inp2) = Some r2"
      using that by (auto intro: run_more_fuel)
    with eq [of ?k] have "map_sum id tape_view r1 = map_sum id tape_view r2"
      by simp
    then show ?thesis
      by (cases r1; cases r2) (simp_all add: tape_view_def)
  qed
  ultimately show ?thesis by blast
qed

theorem tape_is_deterministic_witness:
  "CHR '','' \<notin> set (loaded ''++[-]>+'') \<and>
   run 12 (loaded ''++[-]>+'') (initial ''abc'')
     = Some (Inr \<lparr>ip = 7, dp = 1, data = (replicate capacity 0)[0 := 0, 1 := 1],
                  stdin = ''abc'', stdout = []\<rparr>) \<and>
   run 20 (loaded ''++[-]>+'') (initial [])
     = Some (Inr \<lparr>ip = 7, dp = 1, data = (replicate capacity 0)[0 := 0, 1 := 1],
                  stdin = [], stdout = []\<rparr>) \<and>
   map_sum id data
     (Inr \<lparr>ip = 7, dp = 1, data = (replicate capacity 0)[0 := 0, 1 := 1],
           stdin = ''abc'', stdout = []\<rparr> :: error + state)
     = map_sum id data
         (Inr \<lparr>ip = 7, dp = 1, data = (replicate capacity 0)[0 := 0, 1 := 1],
               stdin = [], stdout = []\<rparr>)"
proof -
  let ?W = "loaded ''++[-]>+''"
  have c: "CHR '','' \<notin> set ?W"
    by (rule notin_loaded) (simp_all add: NUL_def)
  have r1: "run 12 ?W (initial ''abc'')
      = Some (Inr \<lparr>ip = 7, dp = 1, data = (replicate capacity 0)[0 := 0, 1 := 1],
                   stdin = ''abc'', stdout = []\<rparr>)"
    by (simp add: run_num fetch_loaded step_def initial_def NUL_def poke_def peek_def
        blookup_def bloop.simps capacity_def)
  have r2: "run 20 ?W (initial [])
      = Some (Inr \<lparr>ip = 7, dp = 1, data = (replicate capacity 0)[0 := 0, 1 := 1],
                   stdin = [], stdout = []\<rparr>)"
    by (simp add: run_num fetch_loaded step_def initial_def NUL_def poke_def peek_def
        blookup_def bloop.simps capacity_def)
  from tape_is_deterministic [OF c, THEN conjunct2, rule_format, OF conjI, OF r1 r2] c r1 r2
  show ?thesis
    by (simp only: simp_thms)
qed

subsection \<open>C10: landing on the bracket or one past it\<close>

lemma step_past_not_taken: "\<not> taken code s \<Longrightarrow> step_past code s = step code s"
  by (auto simp: taken_def step_past_def step_def split: option.splits)

lemma peek_ip_update: "peek (s\<lparr>ip := j\<rparr>) = peek s"
  by (simp add: peek_def)

lemma step_past_taken:
  assumes "balanced code" and "length code \<le> capacity" and "taken code s"
  shows "\<exists>j c. step code s = Inr (s\<lparr>ip := j\<rparr>) \<and> step_past code s = Inr (s\<lparr>ip := j + 1\<rparr>) \<and>
           fetch code j = Some c \<and> c \<noteq> NUL \<and> step code (s\<lparr>ip := j\<rparr>) = Inr (s\<lparr>ip := j + 1\<rparr>)"
proof -
  from assms(3) consider
      (fwd) "fetch code (ip s) = Some (CHR ''['')" "peek s = Some 0"
    | (bwd) v where "fetch code (ip s) = Some (CHR '']'')" "peek s = Some v" "v \<noteq> 0"
    by (auto simp: taken_def)
  then show ?thesis
  proof cases
    case fwd
    from flookup_matching [OF assms(1,2) fwd(1)]
    obtain j where j: "flookup code (ip s) = Inr j" "fetch code j = Some (CHR '']'')"
      using matching_fetch by blast
    have "step code s = Inr (s\<lparr>ip := j\<rparr>)" "step_past code s = Inr (s\<lparr>ip := j + 1\<rparr>)"
      using fwd j(1) by (simp_all add: step_def step_past_def)
    moreover have "step code (s\<lparr>ip := j\<rparr>) = Inr (s\<lparr>ip := j + 1\<rparr>)"
      using fwd(2) j(2) by (simp add: step_def peek_ip_update)
    ultimately show ?thesis
      using j(2) by (auto simp: NUL_def)
  next
    case bwd
    from blookup_matching [OF assms(1,2) bwd(1)]
    obtain j where j: "blookup code (ip s) = Inr j" "fetch code j = Some (CHR ''['')"
      using matching_fetch by blast
    have "step code s = Inr (s\<lparr>ip := j\<rparr>)" "step_past code s = Inr (s\<lparr>ip := j + 1\<rparr>)"
      using bwd j(1) by (simp_all add: step_def step_past_def)
    moreover have "step code (s\<lparr>ip := j\<rparr>) = Inr (s\<lparr>ip := j + 1\<rparr>)"
      using bwd(2,3) j(2) by (simp add: step_def peek_ip_update)
    ultimately show ?thesis
      using j(2) by (auto simp: NUL_def)
  qed
qed

lemma run_past_simulated:
  assumes "balanced code" and "length code \<le> capacity"
  shows "run_past n code s = Some r \<Longrightarrow> \<exists>m. run m code s = Some r"
proof (induction n arbitrary: s)
  case 0
  then show ?case by simp
next
  case (Suc n)
  show ?case
  proof (cases "fetch code (ip s)")
    case None
    with Suc.prems have "run (Suc 0) code s = Some r" by simp
    then show ?thesis ..
  next
    case (Some c)
    show ?thesis
    proof (cases "c = NUL")
      case True
      with Some Suc.prems have "run (Suc 0) code s = Some r" by simp
      then show ?thesis ..
    next
      case running: False
      show ?thesis
      proof (cases "taken code s")
        case False
        then have same: "step_past code s = step code s"
          by (rule step_past_not_taken)
        show ?thesis
        proof (cases "step code s")
          case (Inl e)
          with Some running same Suc.prems have "r = Inl e" by simp
          with Some running Inl have "run (Suc 0) code s = Some r" by simp
          then show ?thesis ..
        next
          case (Inr t)
          with Some running same Suc.prems have "run_past n code t = Some r" by simp
          then obtain m where "run m code t = Some r"
            using Suc.IH by blast
          with Some running Inr have "run (Suc m) code s = Some r" by simp
          then show ?thesis ..
        qed
      next
        case True
        from step_past_taken [OF assms True]
        obtain j c' where j: "step code s = Inr (s\<lparr>ip := j\<rparr>)"
            "step_past code s = Inr (s\<lparr>ip := j + 1\<rparr>)" "fetch code j = Some c'" "c' \<noteq> NUL"
            "step code (s\<lparr>ip := j\<rparr>) = Inr (s\<lparr>ip := j + 1\<rparr>)"
          by blast
        with Some running Suc.prems have "run_past n code (s\<lparr>ip := j + 1\<rparr>) = Some r" by simp
        then obtain m where "run m code (s\<lparr>ip := j + 1\<rparr>) = Some r"
          using Suc.IH by blast
        with j have "run (Suc m) code (s\<lparr>ip := j\<rparr>) = Some r" by simp
        with Some running j(1) have "run (Suc (Suc m)) code s = Some r" by simp
        then show ?thesis ..
      qed
    qed
  qed
qed

lemma run_simulated:
  assumes "balanced code" and "length code \<le> capacity"
  shows "run m code s = Some r \<Longrightarrow> \<exists>n. run_past n code s = Some r"
proof (induction m arbitrary: s rule: less_induct)
  case (less m)
  from less.prems obtain m1 where m: "m = Suc m1"
    by (cases m) auto
  show ?case
  proof (cases "fetch code (ip s)")
    case None
    with less.prems m have "run_past (Suc 0) code s = Some r" by simp
    then show ?thesis ..
  next
    case (Some c)
    show ?thesis
    proof (cases "c = NUL")
      case True
      with Some less.prems m have "run_past (Suc 0) code s = Some r" by simp
      then show ?thesis ..
    next
      case running: False
      show ?thesis
      proof (cases "taken code s")
        case False
        then have same: "step_past code s = step code s"
          by (rule step_past_not_taken)
        show ?thesis
        proof (cases "step code s")
          case (Inl e)
          with Some running less.prems m have "r = Inl e" by simp
          with Some running same Inl have "run_past (Suc 0) code s = Some r" by simp
          then show ?thesis ..
        next
          case (Inr t)
          with Some running less.prems m have "run m1 code t = Some r" by simp
          moreover have "m1 < m"
            using m by simp
          ultimately obtain n where "run_past n code t = Some r"
            using less.IH [of m1 t] by blast
          with Some running same Inr have "run_past (Suc n) code s = Some r" by simp
          then show ?thesis ..
        qed
      next
        case True
        from step_past_taken [OF assms True]
        obtain j c' where j: "step code s = Inr (s\<lparr>ip := j\<rparr>)"
            "step_past code s = Inr (s\<lparr>ip := j + 1\<rparr>)" "fetch code j = Some c'" "c' \<noteq> NUL"
            "step code (s\<lparr>ip := j\<rparr>) = Inr (s\<lparr>ip := j + 1\<rparr>)"
          by blast
        with Some running less.prems m have again: "run m1 code (s\<lparr>ip := j\<rparr>) = Some r" by simp
        then obtain m2 where m1: "m1 = Suc m2"
          by (cases m1) auto
        with again j have "run m2 code (s\<lparr>ip := j + 1\<rparr>) = Some r" by simp
        moreover have "m2 < m"
          using m m1 by simp
        ultimately obtain n where "run_past n code (s\<lparr>ip := j + 1\<rparr>) = Some r"
          using less.IH [of m2 "s\<lparr>ip := j + 1\<rparr>"] by blast
        with Some running j(2) have "run_past (Suc n) code s = Some r" by simp
        then show ?thesis ..
      qed
    qed
  qed
qed

text \<open>
  C10. For every balanced program, the engine of src/bf.c, whose taken \<^verbatim>\<open>[\<close> and \<^verbatim>\<open>]\<close> set
  \<^verbatim>\<open>ip\<close> to the offset of the matching bracket (\<open>run\<close>), and the engine that sets \<^verbatim>\<open>ip\<close> one
  past the matching bracket (\<open>run_past\<close>) behave alike from every state: one ends with the
  result \<open>r\<close> (the final state with its tape, pointers and output, or the error) if and
  only if the other ends with \<open>r\<close>; so neither ends when the other does not.
\<close>

theorem jump_to_bracket_equivalent:
  assumes "balanced code" and "length code \<le> capacity"
  shows "(\<exists>n. run_past n code s = Some r) \<longleftrightarrow> (\<exists>m. run m code s = Some r)"
  using run_past_simulated [OF assms] run_simulated [OF assms] by blast

theorem jump_to_bracket_equivalent_witness:
  "balanced (loaded ''[]++[-]'') \<and> length (loaded ''[]++[-]'') \<le> capacity \<and>
   run_past 9 (loaded ''[]++[-]'') (initial []) = Some (Inr ((poke (initial []) 0)\<lparr>ip := 7\<rparr>)) \<and>
   run 11 (loaded ''[]++[-]'') (initial []) = Some (Inr ((poke (initial []) 0)\<lparr>ip := 7\<rparr>)) \<and>
   run 10 (loaded ''[]++[-]'') (initial []) = None \<and>
   ((\<exists>n. run_past n (loaded ''[]++[-]'') (initial []) = Some (Inr ((poke (initial []) 0)\<lparr>ip := 7\<rparr>)))
      \<longleftrightarrow> (\<exists>m. run m (loaded ''[]++[-]'') (initial []) = Some (Inr ((poke (initial []) 0)\<lparr>ip := 7\<rparr>))))"
proof -
  let ?W = "loaded ''[]++[-]''"
  have b: "balanced ?W"
    by (simp add: balanced_loaded) (simp add: balanced_def)
  have l: "length ?W \<le> capacity"
    by (simp add: loaded_length capacity_def)
  have "run_past 9 ?W (initial []) = Some (Inr ((poke (initial []) 0)\<lparr>ip := 7\<rparr>))"
    by (simp add: run_past_num fetch_loaded step_def step_past_def initial_def NUL_def poke_def
        peek_def flookup_def blookup_def floop.simps bloop.simps capacity_def)
  moreover have "run 11 ?W (initial []) = Some (Inr ((poke (initial []) 0)\<lparr>ip := 7\<rparr>))"
    by (simp add: run_num fetch_loaded step_def initial_def NUL_def poke_def
        peek_def flookup_def blookup_def floop.simps bloop.simps capacity_def)
  moreover have "run 10 ?W (initial []) = None"
    by (simp add: run_num fetch_loaded step_def initial_def NUL_def poke_def
        peek_def flookup_def blookup_def floop.simps bloop.simps capacity_def)
  ultimately show ?thesis
    using jump_to_bracket_equivalent [OF b l, of "initial []" "Inr ((poke (initial []) 0)\<lparr>ip := 7\<rparr>)"] b l
    by simp
qed

end
